theory Spec2Isabelle
  imports Main "HOL-Library.Word"
begin

unbundle bit_operations_syntax

section \<open>The lock-free single-producer/single-consumer ring (include/SPSCRing.h)\<close>

text \<open>
  The class template \<open>SPSCRing<T, Size>\<close> is embedded sequentially: every member function
  takes the object's state and returns the new state together with its result. The
  template parameter \<open>Size\<close> is an explicit argument of every function; the element type
  \<open>T\<close> is the type variable \<open>'a\<close>. \<open>size_t\<close> is the 64-bit unsigned type of the x86-64
  targets the repository builds for (TSCTimer.h uses the x86 \<open>rdtscp\<close> intrinsic), and the
  instrumentation counters are \<open>uint64_t\<close>; both are 64-bit words, so that \<open>+\<close> and \<open>-\<close> wrap
  as the unsigned C++ operators do. The memory orders of the atomic loads and stores have no
  sequential meaning and are dropped. The data members \<open>head_\<close>, \<open>tail_\<close>, \<open>buffer_\<close>,
  \<open>push_count_\<close>, \<open>pop_count_\<close> and \<open>failed_push_count_\<close> are the record's fields, written
  without the trailing underscore.
\<close>

type_synonym size_t = "64 word"
type_synonym uint64_t = "64 word"

record 'a SPSCRing =
  head :: size_t
  tail :: size_t
  buffer :: "'a list"
  push_count :: uint64_t
  pop_count :: uint64_t
  failed_push_count :: uint64_t

text \<open>The two \<open>static_assert\<close>s on the template parameter \<open>Size\<close>.\<close>

definition static_asserts :: "size_t \<Rightarrow> bool" where
  "static_asserts Size \<longleftrightarrow> (Size AND (Size - 1)) = 0 \<and> Size \<ge> 2"

definition MASK :: "size_t \<Rightarrow> size_t" where
  "MASK Size = Size - 1"

definition next_index :: "size_t \<Rightarrow> size_t \<Rightarrow> size_t" where
  "next_index Size current = (current + 1) AND MASK Size"

text \<open>
  The constructor: \<open>head\<close>, \<open>tail\<close> and the three counters start at 0 by their member
  initialisers, and the loop value-initialises each of the \<open>Size\<close> slots; \<open>T0\<close> stands for
  the value \<open>T{}\<close>.
\<close>

definition SPSCRing_ctor :: "size_t \<Rightarrow> 'a \<Rightarrow> 'a SPSCRing" where
  "SPSCRing_ctor Size T0 =
     \<lparr>head = 0, tail = 0, buffer = replicate (unat Size) T0,
      push_count = 0, pop_count = 0, failed_push_count = 0\<rparr>"

text \<open>
  \<open>try_emplace(const T&)\<close>. The slot write \<open>buffer_[current_head] = item\<close> is a list update;
  an index outside the array is undefined behaviour in C++ and a no-op of the list update;
  the section on the index range below shows that it never arises.
\<close>

definition try_emplace :: "size_t \<Rightarrow> 'a SPSCRing \<Rightarrow> 'a \<Rightarrow> bool \<times> 'a SPSCRing" where
  "try_emplace Size q item =
     (let current_head = head q;
          next_head = next_index Size current_head
      in if next_head = tail q
         then (False, q\<lparr>failed_push_count := failed_push_count q + 1\<rparr>)
         else (True, q\<lparr>buffer := (buffer q)[unat current_head := item],
                        head := next_head,
                        push_count := push_count q + 1\<rparr>))"

text \<open>
  \<open>try_emplace(T&&)\<close>: the same steps with a move assignment into the slot. The object
  moved from belongs to the caller and is no part of the ring's state.
\<close>

definition try_emplace_move :: "size_t \<Rightarrow> 'a SPSCRing \<Rightarrow> 'a \<Rightarrow> bool \<times> 'a SPSCRing" where
  "try_emplace_move Size q item =
     (let current_head = head q;
          next_head = next_index Size current_head
      in if next_head = tail q
         then (False, q\<lparr>failed_push_count := failed_push_count q + 1\<rparr>)
         else (True, q\<lparr>buffer := (buffer q)[unat current_head := item],
                        head := next_head,
                        push_count := push_count q + 1\<rparr>))"

text \<open>
  \<open>try_pop(T& item)\<close>: the result \<open>Some v\<close> is the return value \<open>true\<close> with \<open>item\<close> set to
  \<open>v\<close>; \<open>None\<close> is \<open>false\<close> with \<open>item\<close> untouched. \<open>item = std::move(buffer_[current_tail])\<close>
  leaves the slot in its moved-from state, which depends on \<open>T\<close>: the parameter
  \<open>moved_from\<close> maps a value to what its move leaves behind (the identity for trivially
  copyable types).
\<close>

definition try_pop :: "size_t \<Rightarrow> ('a \<Rightarrow> 'a) \<Rightarrow> 'a SPSCRing \<Rightarrow> 'a option \<times> 'a SPSCRing" where
  "try_pop Size moved_from q =
     (let current_tail = tail q
      in if current_tail = head q
         then (None, q)
         else (let item = buffer q ! unat current_tail;
                   next_tail = next_index Size current_tail
               in (Some item,
                   q\<lparr>buffer := (buffer q)[unat current_tail := moved_from item],
                     tail := next_tail,
                     pop_count := pop_count q + 1\<rparr>)))"

definition empty :: "size_t \<Rightarrow> 'a SPSCRing \<Rightarrow> bool" where
  "empty Size q \<longleftrightarrow> head q = tail q"

definition full :: "size_t \<Rightarrow> 'a SPSCRing \<Rightarrow> bool" where
  "full Size q \<longleftrightarrow> next_index Size (head q) = tail q"

definition size_ring :: "size_t \<Rightarrow> 'a SPSCRing \<Rightarrow> size_t" where
  "size_ring Size q = (head q - tail q) AND MASK Size"

definition capacity :: "size_t \<Rightarrow> 'a SPSCRing \<Rightarrow> size_t" where
  "capacity Size q = Size - 1"

definition total_pushes :: "'a SPSCRing \<Rightarrow> uint64_t" where
  "total_pushes q = push_count q"

definition total_pops :: "'a SPSCRing \<Rightarrow> uint64_t" where
  "total_pops q = pop_count q"

definition failed_pushes :: "'a SPSCRing \<Rightarrow> uint64_t" where
  "failed_pushes q = failed_push_count q"

subsection \<open>Sequences of calls\<close>

text \<open>
  A sequential client of the ring: a list of calls, run in order, each recorded with its
  outcome.
\<close>

datatype 'a call = Emplace 'a | EmplaceMove 'a | Pop

datatype 'a event = PushOk 'a | PushFull 'a | PopOk 'a | PopEmpty

definition do_call :: "size_t \<Rightarrow> ('a \<Rightarrow> 'a) \<Rightarrow> 'a SPSCRing \<Rightarrow> 'a call \<Rightarrow> 'a SPSCRing \<times> 'a event" where
  "do_call Size moved_from q c =
     (case c of
        Emplace x \<Rightarrow>
          (case try_emplace Size q x of (ok, q') \<Rightarrow> (q', if ok then PushOk x else PushFull x))
      | EmplaceMove x \<Rightarrow>
          (case try_emplace_move Size q x of (ok, q') \<Rightarrow> (q', if ok then PushOk x else PushFull x))
      | Pop \<Rightarrow>
          (case try_pop Size moved_from q of
             (None, q') \<Rightarrow> (q', PopEmpty)
           | (Some v, q') \<Rightarrow> (q', PopOk v)))"

fun run :: "size_t \<Rightarrow> ('a \<Rightarrow> 'a) \<Rightarrow> 'a SPSCRing \<Rightarrow> 'a call list \<Rightarrow> 'a SPSCRing \<times> 'a event list" where
  "run Size moved_from q [] = (q, [])"
| "run Size moved_from q (c # cs) =
     (case do_call Size moved_from q c of
        (q', e) \<Rightarrow> (case run Size moved_from q' cs of (q'', es) \<Rightarrow> (q'', e # es)))"

text \<open>
  A call \<open>try_emplace(x)\<close> as the client writes it: overload resolution selects
  \<open>try_emplace(T&&)\<close> when the argument is an rvalue and \<open>try_emplace(const T&)\<close> otherwise.
\<close>

fun emplace_call :: "bool \<Rightarrow> 'a \<Rightarrow> 'a call" where
  "emplace_call True x = EmplaceMove x"
| "emplace_call False x = Emplace x"

text \<open>The values accepted by successful pushes and delivered by successful pops, in order.\<close>

fun accepted :: "'a event list \<Rightarrow> 'a list" where
  "accepted [] = []"
| "accepted (PushOk x # es) = x # accepted es"
| "accepted (e # es) = accepted es"

fun delivered :: "'a event list \<Rightarrow> 'a list" where
  "delivered [] = []"
| "delivered (PopOk x # es) = x # delivered es"
| "delivered (e # es) = delivered es"

text \<open>The values refused by pushes on a full ring.\<close>

fun rejected :: "'a event list \<Rightarrow> 'a list" where
  "rejected [] = []"
| "rejected (PushFull x # es) = x # rejected es"
| "rejected (e # es) = rejected es"

fun is_push_call :: "'a call \<Rightarrow> bool" where
  "is_push_call Pop = False"
| "is_push_call c = True"

definition push_calls :: "'a call list \<Rightarrow> nat" where
  "push_calls cs = length (filter is_push_call cs)"

subsection \<open>The ring as a window of the history of accepted values\<close>

text \<open>
  The invariant that relates a state to the history of the calls that led to it: \<open>acc\<close> is
  the list of all values accepted so far and \<open>C\<close> the number of values delivered so far.
  \<open>head\<close> and \<open>tail\<close> are the two counts reduced modulo \<open>Size\<close>, fewer than \<open>Size\<close>
  values are held, and the held values are the entries \<open>C, \<dots>, length acc - 1\<close> of the
  history, each in the slot of its number modulo \<open>Size\<close>.
\<close>

definition ring_inv :: "size_t \<Rightarrow> 'a SPSCRing \<Rightarrow> 'a list \<Rightarrow> nat \<Rightarrow> bool" where
  "ring_inv Size q acc C \<longleftrightarrow>
     length (buffer q) = unat Size \<and>
     unat (head q) = length acc mod unat Size \<and>
     unat (tail q) = C mod unat Size \<and>
     C \<le> length acc \<and> length acc - C < unat Size \<and>
     (\<forall>j. C \<le> j \<and> j < length acc \<longrightarrow> buffer q ! (j mod unat Size) = acc ! j)"

section \<open>Minimum size\<close>

text \<open>
  C9. On a freshly constructed ring of \<open>Size = 2\<close>, for any values \<open>A\<close> and \<open>B\<close> and
  whichever of the two \<open>try_emplace\<close> overloads each push selects: \<open>try_emplace(A)\<close>
  succeeds, \<open>try_emplace(B)\<close> fails because the ring is full, \<open>try_pop\<close> delivers \<open>A\<close>, and
  a second \<open>try_pop\<close> fails because the ring is empty.
\<close>

theorem min_size_round_trip:
  "snd (run 2 moved_from (SPSCRing_ctor 2 T0)
          [emplace_call rvalue_A A, emplace_call rvalue_B B, Pop, Pop])
     = [PushOk A, PushFull B, PopOk A, PopEmpty]"
proof (cases rvalue_A; cases rvalue_B)
  show ?thesis if "rvalue_A" "rvalue_B"
    using that
    by (simp add: do_call_def try_emplace_move_def try_pop_def next_index_def MASK_def
        SPSCRing_ctor_def)
  show ?thesis if "rvalue_A" "\<not> rvalue_B"
    using that
    by (simp add: do_call_def try_emplace_def try_emplace_move_def try_pop_def next_index_def
        MASK_def SPSCRing_ctor_def)
  show ?thesis if "\<not> rvalue_A" "rvalue_B"
    using that
    by (simp add: do_call_def try_emplace_def try_emplace_move_def try_pop_def next_index_def
        MASK_def SPSCRing_ctor_def)
  show ?thesis if "\<not> rvalue_A" "\<not> rvalue_B"
    using that
    by (simp add: do_call_def try_emplace_def try_pop_def next_index_def MASK_def
        SPSCRing_ctor_def)
qed

section \<open>Bit masks and modular indices\<close>

text \<open>A size that passes the two \<open>static_assert\<close>s is \<open>2 ^ k\<close> with \<open>0 < k < 64\<close>.\<close>

lemma pow2_nat: "0 < (n::nat) \<Longrightarrow> n AND (n - 1) = 0 \<Longrightarrow> \<exists>k. n = 2 ^ k"
proof (induction n rule: less_induct)
  case (less n)
  have rec: "n AND (n - 1) = of_bool (odd n \<and> odd (n - 1)) + 2 * (n div 2 AND (n - 1) div 2)"
    by (rule and_nat_rec)
  show ?case
  proof (cases "even n")
    case True
    then obtain m where m: "n = 2 * m" by (elim evenE)
    with less.prems have m0: "0 < m" by simp
    have d: "(n - 1) div 2 = m - 1" using m m0 by (cases m) simp_all
    have "m AND (m - 1) = 0" using rec less.prems(2) d m by simp
    moreover have "m < n" using m m0 by simp
    ultimately obtain k where "m = 2 ^ k" using less.IH m0 by blast
    then have "n = 2 ^ Suc k" using m by simp
    then show ?thesis by blast
  next
    case False
    then obtain m where m: "n = 2 * m + 1" by (elim oddE)
    have "m = 0" using rec less.prems(2) m by simp
    then have "n = 2 ^ 0" using m by simp
    then show ?thesis by blast
  qed
qed

lemma static_asserts_pow2:
  assumes "static_asserts Size"
  shows "\<exists>k. 0 < k \<and> k < 64 \<and> Size = 2 ^ k \<and> unat Size = 2 ^ k"
proof -
  from assms have a: "Size AND (Size - 1) = 0" and b: "2 \<le> Size"
    by (simp_all add: static_asserts_def)
  from b have nz: "Size \<noteq> 0" by auto
  have "unat (Size AND (Size - 1)) = 0" using a by simp
  then have "unat Size AND (unat Size - 1) = 0"
    by (simp add: unsigned_and_eq unat_minus_one [OF nz])
  moreover have "0 < unat Size" using nz by (simp add: unat_gt_0)
  ultimately obtain k where k: "unat Size = 2 ^ k" using pow2_nat by blast
  have lt: "unat Size < 2 ^ LENGTH(64)" by (rule unsigned_less)
  have "k < LENGTH(64)"
    by (rule power_less_imp_less_exp [of 2]) (use lt k in simp_all)
  then have k64: "k < 64" by simp
  have "2 \<le> unat Size" using b by (simp add: word_le_nat_alt)
  with k have k0: "0 < k" by (cases k) simp_all
  have "Size = of_nat (unat Size)" by simp
  also have "\<dots> = 2 ^ k" unfolding k by simp
  finally show ?thesis using k0 k64 k by blast
qed

lemma unat_and_MASK:
  assumes "static_asserts Size"
  shows "unat (x AND MASK Size) = unat x mod unat Size"
proof -
  from static_asserts_pow2 [OF assms] obtain k where k: "Size = 2 ^ k" "unat Size = 2 ^ k"
    by blast
  have "x AND MASK Size = take_bit k x"
    by (simp add: MASK_def k(1) take_bit_eq_mask mask_eq_exp_minus_1)
  then show ?thesis
    by (simp add: unsigned_take_bit_eq take_bit_nat_def k(2))
qed

lemma Size_dvd:
  assumes "static_asserts Size"
  shows "unat Size dvd 2 ^ 64"
proof -
  from static_asserts_pow2 [OF assms] obtain k where k: "k < 64" "unat Size = 2 ^ k"
    by blast
  have "(2::nat) ^ k dvd 2 ^ 64" by (rule le_imp_power_dvd) (use k in simp)
  then show ?thesis by (simp only: k)
qed

lemma unat_next_index:
  assumes "static_asserts Size"
  shows "unat (next_index Size x) = (unat x + 1) mod unat Size"
proof -
  have "unat (next_index Size x) = unat (x + 1) mod unat Size"
    by (simp add: next_index_def unat_and_MASK [OF assms])
  also have "unat (x + 1) = (unat x + 1) mod 2 ^ 64"
    by (simp add: unat_word_ariths)
  also have "(unat x + 1) mod 2 ^ 64 mod unat Size = (unat x + 1) mod unat Size"
    by (rule mod_mod_cancel [OF Size_dvd [OF assms]])
  finally show ?thesis .
qed


lemma uint_size_ring:
  assumes "static_asserts Size"
  shows "uint (size_ring Size q) = (uint (head q) - uint (tail q)) mod uint Size"
proof -
  from static_asserts_pow2 [OF assms] obtain k
    where k: "k < 64" "Size = 2 ^ k" "unat Size = 2 ^ k"
    by blast
  have u: "uint Size = 2 ^ k"
    by (simp only: uint_nat k(3) of_nat_power of_nat_numeral)
  have "k \<le> LENGTH(64)" using k(1) by simp
  then have d: "(2::int) ^ k dvd 2 ^ LENGTH(64)"
    by (rule le_imp_power_dvd)
  have m: "(head q - tail q) AND MASK Size = take_bit k (head q - tail q)"
    by (simp only: MASK_def k(2) take_bit_eq_mask mask_eq_exp_minus_1)
  have "uint (size_ring Size q) = take_bit k (uint (head q - tail q))"
    by (simp only: size_ring_def m unsigned_take_bit_eq)
  also have "\<dots> = uint (head q - tail q) mod 2 ^ k"
    by (rule take_bit_eq_mod)
  also have "\<dots> = (uint (head q) - uint (tail q)) mod 2 ^ LENGTH(64) mod 2 ^ k"
    by (simp only: uint_word_ariths(2))
  also have "\<dots> = (uint (head q) - uint (tail q)) mod 2 ^ k"
    by (rule mod_mod_cancel [OF d])
  finally show ?thesis by (simp only: u)
qed

lemma mod_inj_window:
  fixes a b N :: nat
  assumes "a \<le> b" "b - a < N"
  shows "a mod N = b mod N \<longleftrightarrow> a = b"
proof
  assume "a mod N = b mod N"
  then have "N dvd b - a" using assms(1) by (metis mod_eq_dvd_iff_nat)
  then have "b - a = 0" using assms(2) by (meson dvd_imp_le not_less zero_less_iff_neq_zero)
  then show "a = b" using assms(1) by simp
qed simp

lemma full_window:
  fixes P C N :: nat
  assumes "C \<le> P" "P - C < N"
  shows "(P + 1) mod N = C mod N \<longleftrightarrow> P - C = N - 1"
proof
  assume e: "(P + 1) mod N = C mod N"
  show "P - C = N - 1"
  proof (rule ccontr)
    assume "P - C \<noteq> N - 1"
    then have "P + 1 - C < N" using assms by simp
    moreover have "C \<le> P + 1" using assms by simp
    ultimately have "C = P + 1" using e mod_inj_window [of C "P + 1" N] by simp
    then show False using assms by simp
  qed
next
  assume "P - C = N - 1"
  then have "P + 1 = C + N" using assms by simp
  then show "(P + 1) mod N = C mod N" by simp
qed

lemma ring_inv_ctor: "static_asserts Size \<Longrightarrow> ring_inv Size (SPSCRing_ctor Size T0) [] 0"
  by (simp add: ring_inv_def SPSCRing_ctor_def static_asserts_def unat_gt_0) auto

lemma ring_inv_failed [simp]:
  "ring_inv Size (q\<lparr>failed_push_count := v\<rparr>) acc C = ring_inv Size q acc C"
  by (simp add: ring_inv_def)

lemma ring_inv_full_iff:
  assumes "static_asserts Size" "ring_inv Size q acc C"
  shows "next_index Size (head q) = tail q \<longleftrightarrow> length acc - C = unat Size - 1"
proof -
  have N: "0 < unat Size" using static_asserts_pow2 [OF assms(1)] by auto
  have "next_index Size (head q) = tail q \<longleftrightarrow> unat (next_index Size (head q)) = unat (tail q)"
    by (simp add: word_unat_eq_iff)
  also have "\<dots> \<longleftrightarrow> (length acc + 1) mod unat Size = C mod unat Size"
    using assms(2) by (simp add: unat_next_index [OF assms(1)] ring_inv_def mod_Suc_eq)
  also have "\<dots> \<longleftrightarrow> length acc - C = unat Size - 1"
    using assms(2) by (intro full_window) (simp_all add: ring_inv_def)
  finally show ?thesis .
qed

lemma ring_inv_empty_iff:
  assumes "ring_inv Size q acc C"
  shows "tail q = head q \<longleftrightarrow> C = length acc"
proof -
  have "tail q = head q \<longleftrightarrow> unat (tail q) = unat (head q)"
    by (simp add: word_unat_eq_iff)
  also have "\<dots> \<longleftrightarrow> C mod unat Size = length acc mod unat Size"
    using assms by (simp add: ring_inv_def)
  also have "\<dots> \<longleftrightarrow> C = length acc"
    using assms by (intro mod_inj_window) (simp_all add: ring_inv_def)
  finally show ?thesis .
qed

section \<open>One call on a ring that satisfies the invariant\<close>

lemma try_emplace_move_eq: "try_emplace_move Size q x = try_emplace Size q x"
  by (simp add: try_emplace_move_def try_emplace_def)

lemma Size_pos: "static_asserts Size \<Longrightarrow> 0 < unat Size"
  using static_asserts_pow2 [of Size] by auto

lemma try_emplace_full:
  assumes "static_asserts Size" "ring_inv Size q acc C" "length acc - C = unat Size - 1"
  shows "try_emplace Size q x = (False, q\<lparr>failed_push_count := failed_push_count q + 1\<rparr>)"
  using ring_inv_full_iff [OF assms(1,2)] assms(3) by (simp add: try_emplace_def Let_def)

lemma try_emplace_ok:
  assumes sa: "static_asserts Size" and inv: "ring_inv Size q acc C"
    and room: "length acc - C \<noteq> unat Size - 1"
  shows "\<exists>q'. try_emplace Size q x = (True, q') \<and> ring_inv Size q' (acc @ [x]) C
           \<and> push_count q' = push_count q + 1 \<and> pop_count q' = pop_count q
           \<and> failed_push_count q' = failed_push_count q"
proof -
  let ?N = "unat Size"
  let ?q = "q\<lparr>buffer := (buffer q)[unat (head q) := x], head := next_index Size (head q),
              push_count := push_count q + 1\<rparr>"
  have N: "0 < ?N" by (rule Size_pos [OF sa])
  from inv have len: "length (buffer q) = ?N" and h: "unat (head q) = length acc mod ?N"
    and t: "unat (tail q) = C mod ?N" and le: "C \<le> length acc" and win: "length acc - C < ?N"
    and slots: "\<And>j. C \<le> j \<Longrightarrow> j < length acc \<Longrightarrow> buffer q ! (j mod ?N) = acc ! j"
    by (simp_all add: ring_inv_def)
  have notfull: "next_index Size (head q) \<noteq> tail q"
    using ring_inv_full_iff [OF sa inv] room by simp
  then have res: "try_emplace Size q x = (True, ?q)"
    by (simp add: try_emplace_def Let_def)
  have h': "unat (head ?q) = length (acc @ [x]) mod ?N"
    by (simp add: unat_next_index [OF sa] h mod_Suc_eq)
  have win': "length (acc @ [x]) - C < ?N" using win room le by simp
  have slots': "buffer ?q ! (j mod ?N) = (acc @ [x]) ! j" if "C \<le> j" "j < length (acc @ [x])" for j
  proof (cases "j = length acc")
    case True
    have "length acc mod ?N < length (buffer q)" using N len by simp
    then show ?thesis using True by (simp add: h)
  next
    case False
    with that have jl: "j < length acc" by simp
    have "j mod ?N \<noteq> length acc mod ?N"
      using mod_inj_window [of j "length acc" ?N] jl that(1) win by simp
    then show ?thesis using slots [OF that(1) jl] jl by (simp add: h nth_append)
  qed
  have "ring_inv Size ?q (acc @ [x]) C"
    unfolding ring_inv_def using len h' t le win' slots' by simp
  then show ?thesis using res by simp
qed

lemma try_pop_empty:
  assumes "ring_inv Size q acc C" "C = length acc"
  shows "try_pop Size mv q = (None, q)"
  using ring_inv_empty_iff [OF assms(1)] assms(2) by (simp add: try_pop_def)

lemma try_pop_ok:
  assumes sa: "static_asserts Size" and inv: "ring_inv Size q acc C"
    and ne: "C \<noteq> length acc"
  shows "\<exists>q'. try_pop Size mv q = (Some (acc ! C), q') \<and> ring_inv Size q' acc (Suc C)
           \<and> push_count q' = push_count q \<and> pop_count q' = pop_count q + 1
           \<and> failed_push_count q' = failed_push_count q"
proof -
  let ?N = "unat Size"
  let ?q = "q\<lparr>buffer := (buffer q)[unat (tail q) := mv (buffer q ! unat (tail q))],
              tail := next_index Size (tail q), pop_count := pop_count q + 1\<rparr>"
  have N: "0 < ?N" by (rule Size_pos [OF sa])
  from inv have len: "length (buffer q) = ?N" and h: "unat (head q) = length acc mod ?N"
    and t: "unat (tail q) = C mod ?N" and le: "C \<le> length acc" and win: "length acc - C < ?N"
    and slots: "\<And>j. C \<le> j \<Longrightarrow> j < length acc \<Longrightarrow> buffer q ! (j mod ?N) = acc ! j"
    by (simp_all add: ring_inv_def)
  from le ne have lt: "C < length acc" by simp
  have nonempty: "tail q \<noteq> head q"
    using ring_inv_empty_iff [OF inv] ne by simp
  have item: "buffer q ! unat (tail q) = acc ! C"
    using slots [of C] lt by (simp add: t)
  have res: "try_pop Size mv q = (Some (acc ! C), ?q)"
    using nonempty by (simp add: try_pop_def Let_def item)
  have t': "unat (tail ?q) = Suc C mod ?N"
    by (simp add: unat_next_index [OF sa] t mod_Suc_eq)
  have win': "length acc - Suc C < ?N" using win by simp
  have slots': "buffer ?q ! (j mod ?N) = acc ! j" if "Suc C \<le> j" "j < length acc" for j
  proof -
    have "C mod ?N \<noteq> j mod ?N"
      using mod_inj_window [of C j ?N] that win by simp
    then show ?thesis using slots [of j] that by (simp add: t)
  qed
  have "ring_inv Size ?q acc (Suc C)"
    unfolding ring_inv_def using len h t' lt win' slots' by simp
  then show ?thesis using res by simp
qed

section \<open>Sequences of calls on a ring that satisfies the invariant\<close>

lemma run_ConsE:
  assumes "run Size mv q (c # cs) = (qf, es)"
  obtains q1 e es' where "do_call Size mv q c = (q1, e)" "run Size mv q1 cs = (qf, es')"
    "es = e # es'"
  using assms by (auto split: prod.splits)

lemma run_append:
  "run Size mv q (cs1 @ cs2) =
     (case run Size mv q cs1 of (q1, es1) \<Rightarrow>
        (case run Size mv q1 cs2 of (q2, es2) \<Rightarrow> (q2, es1 @ es2)))"
  by (induction cs1 arbitrary: q) (simp_all split: prod.splits)

lemma accepted_Cons: "accepted (e # es) = accepted [e] @ accepted es"
  by (cases e) simp_all

lemma delivered_Cons: "delivered (e # es) = delivered [e] @ delivered es"
  by (cases e) simp_all

lemma rejected_Cons: "rejected (e # es) = rejected [e] @ rejected es"
  by (cases e) simp_all

lemma accepted_append: "accepted (es1 @ es2) = accepted es1 @ accepted es2"
  by (induction es1 rule: accepted.induct) simp_all

lemma delivered_append: "delivered (es1 @ es2) = delivered es1 @ delivered es2"
  by (induction es1 rule: delivered.induct) simp_all

lemma rejected_append: "rejected (es1 @ es2) = rejected es1 @ rejected es2"
  by (induction es1 rule: rejected.induct) simp_all

lemma push_calls_append: "push_calls (cs1 @ cs2) = push_calls cs1 + push_calls cs2"
  by (simp add: push_calls_def)

text \<open>The outcome of one call is decided by the number of values held.\<close>

lemma do_call_push:
  assumes sa: "static_asserts Size" and inv: "ring_inv Size q acc C"
    and c: "c = Emplace x \<or> c = EmplaceMove x"
  shows "if length acc - C = unat Size - 1
         then do_call Size mv q c = (q\<lparr>failed_push_count := failed_push_count q + 1\<rparr>, PushFull x)
         else (\<exists>q'. do_call Size mv q c = (q', PushOk x) \<and> ring_inv Size q' (acc @ [x]) C)"
proof (cases "length acc - C = unat Size - 1")
  case True
  then show ?thesis
    using c try_emplace_full [OF sa inv True, of x]
    by (auto simp: do_call_def try_emplace_move_eq)
next
  case False
  from try_emplace_ok [OF sa inv False, of x] obtain q'
    where "try_emplace Size q x = (True, q')" "ring_inv Size q' (acc @ [x]) C"
    by blast
  then show ?thesis
    using c False by (auto simp: do_call_def try_emplace_move_eq)
qed

lemma do_call_pop:
  assumes sa: "static_asserts Size" and inv: "ring_inv Size q acc C"
  shows "if C = length acc
         then do_call Size mv q Pop = (q, PopEmpty)
         else (\<exists>q'. do_call Size mv q Pop = (q', PopOk (acc ! C)) \<and> ring_inv Size q' acc (Suc C))"
proof (cases "C = length acc")
  case True
  then show ?thesis
    using try_pop_empty [OF inv True, of mv] by (simp add: do_call_def)
next
  case False
  from try_pop_ok [OF sa inv False, of mv] obtain q'
    where "try_pop Size mv q = (Some (acc ! C), q')" "ring_inv Size q' acc (Suc C)"
    by blast
  then show ?thesis
    using False by (auto simp: do_call_def)
qed

lemma do_call_push_inv:
  assumes sa: "static_asserts Size" and inv: "ring_inv Size q acc C"
    and c: "c = Emplace x \<or> c = EmplaceMove x"
    and call: "do_call Size mv q c = (q', e)"
  shows "ring_inv Size q' (acc @ accepted [e]) (C + length (delivered [e]))
         \<and> take (C + length (delivered [e])) (acc @ accepted [e]) = take C acc @ delivered [e]"
proof (cases "length acc - C = unat Size - 1")
  case True
  with do_call_push [OF sa inv c, of mv] call
  have "q' = q\<lparr>failed_push_count := failed_push_count q + 1\<rparr>" "e = PushFull x"
    by simp_all
  moreover have "C \<le> length acc" using inv by (simp add: ring_inv_def)
  ultimately show ?thesis using inv by simp
next
  case False
  with do_call_push [OF sa inv c, of mv] obtain q1
    where "do_call Size mv q c = (q1, PushOk x)" "ring_inv Size q1 (acc @ [x]) C"
    by auto
  with call have "e = PushOk x" "ring_inv Size q' (acc @ [x]) C" by simp_all
  moreover have "C \<le> length acc" using inv by (simp add: ring_inv_def)
  ultimately show ?thesis by simp
qed

lemma do_call_pop_inv:
  assumes sa: "static_asserts Size" and inv: "ring_inv Size q acc C"
    and call: "do_call Size mv q Pop = (q', e)"
  shows "ring_inv Size q' (acc @ accepted [e]) (C + length (delivered [e]))
         \<and> take (C + length (delivered [e])) (acc @ accepted [e]) = take C acc @ delivered [e]"
proof (cases "C = length acc")
  case True
  with do_call_pop [OF sa inv, of mv] call have "q' = q" "e = PopEmpty" by simp_all
  then show ?thesis using inv by simp
next
  case False
  have "C \<le> length acc" using inv by (simp add: ring_inv_def)
  with False have lt: "C < length acc" by simp
  from False do_call_pop [OF sa inv, of mv] obtain q1
    where "do_call Size mv q Pop = (q1, PopOk (acc ! C))" "ring_inv Size q1 acc (Suc C)"
    by auto
  with call have e: "e = PopOk (acc ! C)" and inv': "ring_inv Size q' acc (Suc C)" by simp_all
  have "take (Suc C) acc = take C acc @ [acc ! C]"
    using lt by (rule take_Suc_conv_app_nth)
  then show ?thesis using e inv' by simp
qed

lemma do_call_inv:
  assumes sa: "static_asserts Size" and inv: "ring_inv Size q acc C"
    and call: "do_call Size mv q c = (q', e)"
  shows "ring_inv Size q' (acc @ accepted [e]) (C + length (delivered [e]))
         \<and> take (C + length (delivered [e])) (acc @ accepted [e]) = take C acc @ delivered [e]"
proof (cases c)
  case (Emplace x)
  then have "c = Emplace x \<or> c = EmplaceMove x" by simp
  then show ?thesis by (rule do_call_push_inv [OF sa inv _ call])
next
  case (EmplaceMove x)
  then have "c = Emplace x \<or> c = EmplaceMove x" by simp
  then show ?thesis by (rule do_call_push_inv [OF sa inv _ call])
next
  case Pop
  with call show ?thesis using do_call_pop_inv [OF sa inv] by simp
qed

lemma run_inv:
  assumes sa: "static_asserts Size"
  shows "ring_inv Size q acc C \<Longrightarrow> run Size mv q cs = (q', es) \<Longrightarrow>
         ring_inv Size q' (acc @ accepted es) (C + length (delivered es))
         \<and> take (C + length (delivered es)) (acc @ accepted es) = take C acc @ delivered es"
proof (induction cs arbitrary: q acc C es)
  case Nil
  then have "C \<le> length acc" by (simp add: ring_inv_def)
  with Nil show ?case by simp
next
  case (Cons c cs)
  from Cons.prems(2) obtain q1 e es' where
    call: "do_call Size mv q c = (q1, e)" and rest: "run Size mv q1 cs = (q', es')"
    and es: "es = e # es'"
    by (rule run_ConsE)
  let ?a = "acc @ accepted [e]" and ?C = "C + length (delivered [e])"
  from do_call_inv [OF sa Cons.prems(1) call]
  have inv1: "ring_inv Size q1 ?a ?C"
    and d1: "take ?C ?a = take C acc @ delivered [e]"
    by blast+
  from Cons.IH [OF inv1 rest]
  have inv': "ring_inv Size q' (?a @ accepted es') (?C + length (delivered es'))"
    and d': "take (?C + length (delivered es')) (?a @ accepted es') = take ?C ?a @ delivered es'"
    by blast+
  have acc_eq: "acc @ accepted es = ?a @ accepted es'"
    unfolding es by (subst accepted_Cons) simp
  have del_eq: "delivered es = delivered [e] @ delivered es'"
    unfolding es by (rule delivered_Cons)
  have len_eq: "C + length (delivered es) = ?C + length (delivered es')"
    by (simp only: del_eq length_append add.assoc)
  have g1: "ring_inv Size q' (acc @ accepted es) (C + length (delivered es))"
    by (simp only: acc_eq len_eq inv')
  have "take (C + length (delivered es)) (acc @ accepted es) = take ?C ?a @ delivered es'"
    by (simp only: acc_eq len_eq d')
  also have "\<dots> = take C acc @ delivered [e] @ delivered es'"
    by (simp only: d1 append_assoc)
  also have "\<dots> = take C acc @ delivered es"
    by (simp only: del_eq)
  finally show ?case using g1 by blast
qed

section \<open>FIFO order\<close>

lemma run_ctor_inv:
  assumes sa: "static_asserts Size"
    and r: "run Size mv (SPSCRing_ctor Size T0) cs = (q, es)"
  shows "ring_inv Size q (accepted es) (length (delivered es))"
    and "take (length (delivered es)) (accepted es) = delivered es"
  using run_inv [OF sa ring_inv_ctor [OF sa] r] by simp_all

lemma snd_run_Cons:
  "snd (run Size mv q (c # cs))
     = snd (do_call Size mv q c) # snd (run Size mv (fst (do_call Size mv q c)) cs)"
  by (simp split: prod.splits)

lemma drain:
  assumes sa: "static_asserts Size"
  shows "ring_inv Size q acc C \<Longrightarrow> length acc - C \<le> n \<Longrightarrow>
         delivered (snd (run Size mv q (replicate n Pop))) = drop C acc"
proof (induction n arbitrary: q C)
  case 0
  then have "C \<le> length acc" by (simp add: ring_inv_def)
  with 0 show ?case by simp
next
  case (Suc n)
  have le: "C \<le> length acc" using Suc.prems(1) by (simp add: ring_inv_def)
  show ?case
  proof (cases "C = length acc")
    case True
    with do_call_pop [OF sa Suc.prems(1), of mv]
    have call: "do_call Size mv q Pop = (q, PopEmpty)" by simp
    have "delivered (snd (run Size mv q (replicate n Pop))) = drop C acc"
      using Suc.IH [OF Suc.prems(1)] True by simp
    then show ?thesis by (simp only: replicate_Suc snd_run_Cons call fst_conv snd_conv delivered.simps)
  next
    case False
    with le have lt: "C < length acc" by simp
    from False do_call_pop [OF sa Suc.prems(1), of mv] obtain q1
      where call: "do_call Size mv q Pop = (q1, PopOk (acc ! C))"
        and inv1: "ring_inv Size q1 acc (Suc C)"
      by auto
    have "length acc - Suc C \<le> n" using Suc.prems(2) by simp
    from Suc.IH [OF inv1 this]
    have "delivered (snd (run Size mv q1 (replicate n Pop))) = drop (Suc C) acc" .
    then have "delivered (snd (run Size mv q (replicate (Suc n) Pop))) = acc ! C # drop (Suc C) acc"
      by (simp only: replicate_Suc snd_run_Cons call fst_conv snd_conv delivered.simps)
    then show ?thesis using lt by (simp only: Cons_nth_drop_Suc)
  qed
qed

text \<open>
  C1. FIFO order. For every element type, every size that passes the \<open>static_assert\<close>s
  and every sequence \<open>cs\<close> of \<open>try_emplace\<close> (copy or move) and \<open>try_pop\<close> calls on a
  freshly constructed ring: the values delivered so far are the first of the accepted values,
  in the order in which they were accepted, and the pops that empty the ring afterwards
  deliver exactly the remaining accepted values, in order. So every accepted value is
  delivered once, none is lost, and the order is that of acceptance.
\<close>

theorem fifo_order:
  assumes "static_asserts Size"
    and "run Size moved_from (SPSCRing_ctor Size T0) cs = (q, es)"
  shows "delivered es = take (length (delivered es)) (accepted es)
       \<and> delivered (snd (run Size moved_from q (replicate (unat Size - 1) Pop)))
           = drop (length (delivered es)) (accepted es)"
proof -
  note inv = run_ctor_inv [OF assms]
  have "length (accepted es) - length (delivered es) < unat Size"
    using inv(1) by (simp add: ring_inv_def)
  then have "length (accepted es) - length (delivered es) \<le> unat Size - 1"
    by arith
  from drain [OF assms(1) inv(1) this] inv(2) show ?thesis by simp
qed

theorem fifo_order_witness:
  "static_asserts 4
   \<and> run 4 (\<lambda>_. 0) (SPSCRing_ctor 4 (0::nat)) [Emplace 1, EmplaceMove 2, Pop, Emplace 3]
       = (\<lparr>head = 3, tail = 1, buffer = [0, 2, 3, 0],
           push_count = 3, pop_count = 1, failed_push_count = 0\<rparr>,
          [PushOk 1, PushOk 2, PopOk 1, PushOk 3])
   \<and> delivered [PushOk 1, PushOk 2, PopOk 1, PushOk (3::nat)] = [1]
   \<and> accepted [PushOk 1, PushOk 2, PopOk 1, PushOk (3::nat)] = [1, 2, 3]
   \<and> delivered (snd (run 4 (\<lambda>_. 0)
         \<lparr>head = 3, tail = 1, buffer = [0, 2, 3, 0::nat],
          push_count = 3, pop_count = 1, failed_push_count = 0\<rparr>
         (replicate (unat (4::size_t) - 1) Pop))) = [2, 3]"
proof -
  let ?es = "[PushOk 1, PushOk 2, PopOk 1, PushOk (3::nat)]"
  have sa: "static_asserts 4" by code_simp
  have r: "run 4 (\<lambda>_. 0) (SPSCRing_ctor 4 (0::nat)) [Emplace 1, EmplaceMove 2, Pop, Emplace 3]
       = (\<lparr>head = 3, tail = 1, buffer = [0, 2, 3, 0],
           push_count = 3, pop_count = 1, failed_push_count = 0\<rparr>, ?es)"
    by code_simp
  have d: "delivered ?es = [1]" and a: "accepted ?es = [1, 2, 3]" by simp_all
  have "drop (length (delivered ?es)) (accepted ?es) = [2, 3]" by simp
  with fifo_order [OF sa r] sa r d a show ?thesis by (simp only: simp_thms)
qed

section \<open>Index range\<close>

text \<open>
  C7. After construction (\<open>cs = []\<close>) and after every sequence of \<open>try_emplace\<close> and
  \<open>try_pop\<close> calls, \<open>head\<close> and \<open>tail\<close> are below \<open>Size\<close>; as unsigned values they are never
  negative.
\<close>

theorem ring_indices_in_range:
  assumes "static_asserts Size"
    and "run Size moved_from (SPSCRing_ctor Size T0) cs = (q, es)"
  shows "head q < Size \<and> tail q < Size"
proof -
  have N: "0 < unat Size" by (rule Size_pos [OF assms(1)])
  from run_ctor_inv(1) [OF assms]
  have "unat (head q) = length (accepted es) mod unat Size"
    and "unat (tail q) = length (delivered es) mod unat Size"
    by (simp_all add: ring_inv_def)
  with N have "unat (head q) < unat Size" "unat (tail q) < unat Size" by simp_all
  then show ?thesis by (simp add: word_less_nat_alt)
qed

theorem ring_indices_in_range_witness:
  "static_asserts 4
   \<and> run 4 (\<lambda>_. 0) (SPSCRing_ctor 4 (0::nat)) [Emplace 1, EmplaceMove 2, Pop, Emplace 3]
       = (\<lparr>head = 3, tail = 1, buffer = [0, 2, 3, 0],
           push_count = 3, pop_count = 1, failed_push_count = 0\<rparr>,
          [PushOk 1, PushOk 2, PopOk 1, PushOk 3])
   \<and> (3::size_t) < 4 \<and> (1::size_t) < 4"
proof -
  have sa: "static_asserts 4" by code_simp
  have r: "run 4 (\<lambda>_. 0) (SPSCRing_ctor 4 (0::nat)) [Emplace 1, EmplaceMove 2, Pop, Emplace 3]
       = (\<lparr>head = 3, tail = 1, buffer = [0, 2, 3, 0],
           push_count = 3, pop_count = 1, failed_push_count = 0\<rparr>,
          [PushOk 1, PushOk 2, PopOk 1, PushOk 3])"
    by code_simp
  from ring_indices_in_range [OF sa r] sa r show ?thesis by simp
qed

section \<open>Popping an empty ring\<close>

text \<open>
  C4. In every state with \<open>head = tail\<close>, \<open>try_pop\<close> reports the empty outcome and returns the
  state as it was: \<open>head\<close>, \<open>tail\<close>, the buffer and the three counters are unchanged. A freshly
  constructed ring is such a state, and so is every state reached from one by a sequence of
  calls with as many successful pops as successful pushes.
\<close>

theorem empty_pop_no_mutation:
  "(head q = tail q \<longrightarrow> try_pop Size moved_from q = (None, q))
   \<and> try_pop Size moved_from (SPSCRing_ctor Size T0) = (None, SPSCRing_ctor Size T0)
   \<and> (static_asserts Size \<and> run Size moved_from (SPSCRing_ctor Size T0) cs = (q', es)
        \<and> length (accepted es) = length (delivered es)
      \<longrightarrow> try_pop Size moved_from q' = (None, q'))"
proof (intro conjI impI)
  assume "head q = tail q"
  then show "try_pop Size moved_from q = (None, q)" by (simp add: try_pop_def)
next
  show "try_pop Size moved_from (SPSCRing_ctor Size T0) = (None, SPSCRing_ctor Size T0)"
    by (simp add: try_pop_def SPSCRing_ctor_def)
next
  assume a: "static_asserts Size \<and> run Size moved_from (SPSCRing_ctor Size T0) cs = (q', es)
        \<and> length (accepted es) = length (delivered es)"
  then have sa: "static_asserts Size"
    and r: "run Size moved_from (SPSCRing_ctor Size T0) cs = (q', es)"
    by simp_all
  have inv: "ring_inv Size q' (accepted es) (length (delivered es))"
    by (rule run_ctor_inv(1) [OF sa r])
  from a have "length (delivered es) = length (accepted es)" by simp
  then show "try_pop Size moved_from q' = (None, q')"
    by (rule try_pop_empty [OF inv])
qed

theorem empty_pop_no_mutation_witness:
  "head \<lparr>head = 1, tail = 1, buffer = [0, 0::nat],
         push_count = 1, pop_count = 1, failed_push_count = 0\<rparr>
     = tail \<lparr>head = 1, tail = 1, buffer = [0, 0::nat],
         push_count = 1, pop_count = 1, failed_push_count = 0\<rparr>
   \<and> static_asserts 2
   \<and> run 2 (\<lambda>_. 0) (SPSCRing_ctor 2 (0::nat)) [Emplace 7, Pop]
       = (\<lparr>head = 1, tail = 1, buffer = [0, 0],
           push_count = 1, pop_count = 1, failed_push_count = 0\<rparr>, [PushOk 7, PopOk 7])
   \<and> length (accepted [PushOk 7, PopOk (7::nat)]) = length (delivered [PushOk 7, PopOk (7::nat)])
   \<and> try_pop 2 (\<lambda>_. 0) \<lparr>head = 1, tail = 1, buffer = [0, 0::nat],
         push_count = 1, pop_count = 1, failed_push_count = 0\<rparr>
       = (None, \<lparr>head = 1, tail = 1, buffer = [0, 0::nat],
         push_count = 1, pop_count = 1, failed_push_count = 0\<rparr>)"
proof -
  let ?q = "\<lparr>head = 1, tail = 1, buffer = [0, 0::nat],
         push_count = 1, pop_count = 1, failed_push_count = 0\<rparr>"
  let ?es = "[PushOk 7, PopOk (7::nat)]"
  have sa: "static_asserts 2" by code_simp
  have r: "run 2 (\<lambda>_. 0) (SPSCRing_ctor 2 (0::nat)) [Emplace 7, Pop] = (?q, ?es)"
    by code_simp
  have l: "length (accepted ?es) = length (delivered ?es)" by simp
  have h: "head ?q = tail ?q" by simp
  from empty_pop_no_mutation [of ?q 2 "\<lambda>_. 0" 0 "[Emplace 7, Pop]" ?q ?es] sa r l h
  show ?thesis by (simp only: simp_thms)
qed

section \<open>Pushing onto a full ring\<close>

text \<open>
  C5. In every state that is full, that is with \<open>(head + 1) mod Size = tail\<close>, both variants
  of \<open>try_emplace\<close> return failure, and the state they leave differs from the state before
  in \<open>failed_push_count_\<close> alone, which is one higher: \<open>head\<close>, \<open>tail\<close>, the buffer and the
  counts of successful pushes and pops are as before.
\<close>

theorem full_push_fails:
  assumes "static_asserts Size"
    and "(unat (head q) + 1) mod unat Size = unat (tail q)"
  shows "try_emplace Size q item = (False, q\<lparr>failed_push_count := failed_push_count q + 1\<rparr>)
       \<and> try_emplace_move Size q item
           = (False, q\<lparr>failed_push_count := failed_push_count q + 1\<rparr>)
       \<and> failed_pushes (snd (try_emplace Size q item)) = failed_pushes q + 1
       \<and> total_pushes (snd (try_emplace Size q item)) = total_pushes q
       \<and> total_pops (snd (try_emplace Size q item)) = total_pops q"
proof -
  have "unat (next_index Size (head q)) = unat (tail q)"
    using assms(2) by (simp only: unat_next_index [OF assms(1)])
  then have "next_index Size (head q) = tail q" by (simp only: word_unat_eq_iff)
  then have e: "try_emplace Size q item
      = (False, q\<lparr>failed_push_count := failed_push_count q + 1\<rparr>)"
    by (simp add: try_emplace_def Let_def)
  then show ?thesis
    by (simp add: try_emplace_move_eq failed_pushes_def total_pushes_def total_pops_def)
qed

theorem full_push_fails_witness:
  "static_asserts 4
   \<and> (unat (head \<lparr>head = 3, tail = 0, buffer = [1, 2, 3, 0::nat],
         push_count = 3, pop_count = 0, failed_push_count = 0\<rparr>) + 1) mod unat (4::size_t)
      = unat (tail \<lparr>head = 3, tail = 0, buffer = [1, 2, 3, 0::nat],
         push_count = 3, pop_count = 0, failed_push_count = 0\<rparr>)
   \<and> try_emplace 4 \<lparr>head = 3, tail = 0, buffer = [1, 2, 3, 0::nat],
         push_count = 3, pop_count = 0, failed_push_count = 0\<rparr> 9
      = (False, \<lparr>head = 3, tail = 0, buffer = [1, 2, 3, 0::nat],
         push_count = 3, pop_count = 0, failed_push_count = 1\<rparr>)
   \<and> try_emplace_move 4 \<lparr>head = 3, tail = 0, buffer = [1, 2, 3, 0::nat],
         push_count = 3, pop_count = 0, failed_push_count = 0\<rparr> 9
      = (False, \<lparr>head = 3, tail = 0, buffer = [1, 2, 3, 0::nat],
         push_count = 3, pop_count = 0, failed_push_count = 1\<rparr>)"
proof -
  let ?q = "\<lparr>head = 3, tail = 0, buffer = [1, 2, 3, 0::nat],
         push_count = 3, pop_count = 0, failed_push_count = 0\<rparr>"
  have sa: "static_asserts 4" by code_simp
  have f: "(unat (head ?q) + 1) mod unat (4::size_t) = unat (tail ?q)" by simp
  from full_push_fails [OF sa f, of 9] sa f show ?thesis by simp
qed

section \<open>Status queries\<close>

text \<open>
  C8. In every state, \<open>empty()\<close> holds exactly when \<open>head = tail\<close>, \<open>full()\<close> holds exactly
  when \<open>(head + 1) mod Size = tail\<close>, and \<open>capacity()\<close> is \<open>Size - 1\<close>, in the state before
  and in the state after any sequence of calls.
\<close>

theorem status_queries:
  assumes "static_asserts Size"
  shows "(empty Size q \<longleftrightarrow> head q = tail q)
       \<and> (full Size q \<longleftrightarrow> (unat (head q) + 1) mod unat Size = unat (tail q))
       \<and> capacity Size q = Size - 1
       \<and> unat (capacity Size q) = unat Size - 1
       \<and> capacity Size (fst (run Size moved_from q cs)) = capacity Size q"
proof -
  have "full Size q \<longleftrightarrow> unat (next_index Size (head q)) = unat (tail q)"
    by (simp only: full_def word_unat_eq_iff)
  then have f: "full Size q \<longleftrightarrow> (unat (head q) + 1) mod unat Size = unat (tail q)"
    by (simp only: unat_next_index [OF assms])
  have "Size \<noteq> 0" using Size_pos [OF assms] by auto
  then have u: "unat (Size - 1) = unat Size - 1" by (rule unat_minus_one)
  show ?thesis using f u by (simp add: empty_def capacity_def)
qed

theorem status_queries_witness:
  "static_asserts 4
   \<and> full 4 \<lparr>head = 3, tail = 0, buffer = [1, 2, 3, 0::nat],
         push_count = 3, pop_count = 0, failed_push_count = 0\<rparr>
   \<and> \<not> empty 4 \<lparr>head = 3, tail = 0, buffer = [1, 2, 3, 0::nat],
         push_count = 3, pop_count = 0, failed_push_count = 0\<rparr>
   \<and> capacity 4 \<lparr>head = 3, tail = 0, buffer = [1, 2, 3, 0::nat],
         push_count = 3, pop_count = 0, failed_push_count = 0\<rparr> = 3
   \<and> capacity 4 (fst (run 4 (\<lambda>_. 0) \<lparr>head = 3, tail = 0, buffer = [1, 2, 3, 0::nat],
         push_count = 3, pop_count = 0, failed_push_count = 0\<rparr> [Pop, Emplace 4])) = 3"
proof -
  let ?q = "\<lparr>head = 3, tail = 0, buffer = [1, 2, 3, 0::nat],
         push_count = 3, pop_count = 0, failed_push_count = 0\<rparr>"
  have sa: "static_asserts 4" by code_simp
  from status_queries [OF sa, of ?q "\<lambda>_. 0" "[Pop, Emplace 4]"] sa show ?thesis by simp
qed

section \<open>Capacity boundary\<close>

lemma Size_ge2: "static_asserts Size \<Longrightarrow> 2 \<le> unat Size"
  by (simp add: static_asserts_def word_le_nat_alt)

lemma emplace_call_cases: "emplace_call r x = Emplace x \<or> emplace_call r x = EmplaceMove x"
  by (cases r) simp_all

lemma run_pushes_fit:
  assumes sa: "static_asserts Size"
  shows "ring_inv Size q acc C \<Longrightarrow> length acc - C + length rxs \<le> unat Size - 1 \<Longrightarrow>
         \<exists>q'. run Size mv q (map (\<lambda>(r, x). emplace_call r x) rxs)
                  = (q', map (\<lambda>(r, x). PushOk x) rxs)
              \<and> ring_inv Size q' (acc @ map snd rxs) C"
proof (induction rxs arbitrary: q acc)
  case Nil
  then show ?case by simp
next
  case (Cons rx rxs)
  obtain r x where rx: "rx = (r, x)" by (cases rx)
  have le: "C \<le> length acc" using Cons.prems(1) by (simp add: ring_inv_def)
  have room: "length acc - C \<noteq> unat Size - 1" using Cons.prems(2) by simp
  with do_call_push [OF sa Cons.prems(1) emplace_call_cases [of r x], where mv = mv] obtain q1
    where call: "do_call Size mv q (emplace_call r x) = (q1, PushOk x)"
      and inv1: "ring_inv Size q1 (acc @ [x]) C"
    by auto
  have "length (acc @ [x]) - C + length rxs \<le> unat Size - 1"
    using Cons.prems(2) le by simp
  from Cons.IH [OF inv1 this] obtain q'
    where "run Size mv q1 (map (\<lambda>(r, x). emplace_call r x) rxs)
             = (q', map (\<lambda>(r, x). PushOk x) rxs)"
      and "ring_inv Size q' ((acc @ [x]) @ map snd rxs) C"
    by blast
  then show ?case by (simp add: rx call)
qed

text \<open>
  C2. On a freshly constructed ring of any size that passes the \<open>static_assert\<close>s, the first
  \<open>Size - 1\<close> consecutive \<open>try_emplace\<close> calls all succeed and the next one fails; after one
  \<open>try_pop\<close>, which succeeds and delivers the first value, one more \<open>try_emplace\<close> succeeds.
  Each of the \<open>try_emplace\<close> calls may select either overload: \<open>rxs\<close> lists, for the first
  \<open>Size - 1\<close> calls, whether the argument is an rvalue and its value. \<open>capacity()\<close> is that
  number \<open>Size - 1\<close>.
\<close>

theorem capacity_boundary:
  assumes "static_asserts Size" and "length rxs = unat Size - 1"
  shows "snd (run Size moved_from (SPSCRing_ctor Size T0)
                (map (\<lambda>(r, x). emplace_call r x) rxs
                 @ [emplace_call rvalue_y y, Pop, emplace_call rvalue_z z]))
           = map (\<lambda>(r, x). PushOk x) rxs @ [PushFull y, PopOk (snd (hd rxs)), PushOk z]
       \<and> unat (capacity Size (SPSCRing_ctor Size T0)) = length rxs"
proof -
  note sa = assms(1)
  let ?mv = moved_from
  let ?xs = "map snd rxs"
  let ?cy = "emplace_call rvalue_y y" and ?cz = "emplace_call rvalue_z z"
  have N: "2 \<le> unat Size" by (rule Size_ge2 [OF sa])
  with assms(2) have ne: "rxs \<noteq> []" by auto
  have len: "length ?xs = unat Size - 1" using assms(2) by simp
  have "length ([]::'a list) - 0 + length rxs \<le> unat Size - 1" using assms(2) by simp
  from run_pushes_fit [OF sa ring_inv_ctor [OF sa] this, of ?mv T0] obtain q1
    where r1: "run Size ?mv (SPSCRing_ctor Size T0) (map (\<lambda>(r, x). emplace_call r x) rxs)
                 = (q1, map (\<lambda>(r, x). PushOk x) rxs)"
      and inv1: "ring_inv Size q1 ?xs 0"
    by auto
  let ?q2 = "q1\<lparr>failed_push_count := failed_push_count q1 + 1\<rparr>"
  have c2: "do_call Size ?mv q1 ?cy = (?q2, PushFull y)"
    using do_call_push [OF sa inv1 emplace_call_cases [of rvalue_y y], where mv = ?mv] len by simp
  have inv2: "ring_inv Size ?q2 ?xs 0" using inv1 by simp
  from do_call_pop [OF sa inv2, of ?mv] ne obtain q3
    where c3: "do_call Size ?mv ?q2 Pop = (q3, PopOk (?xs ! 0))"
      and inv3: "ring_inv Size q3 ?xs (Suc 0)"
    by auto
  have "length ?xs - Suc 0 \<noteq> unat Size - 1" using len N by simp
  with do_call_push [OF sa inv3 emplace_call_cases [of rvalue_z z], where mv = ?mv] obtain q4
    where c4: "do_call Size ?mv q3 ?cz = (q4, PushOk z)"
    by auto
  have "run Size ?mv q1 [?cy, Pop, ?cz] = (q4, [PushFull y, PopOk (?xs ! 0), PushOk z])"
    by (simp add: c2 c3 c4)
  then have "snd (run Size ?mv (SPSCRing_ctor Size T0)
                (map (\<lambda>(r, x). emplace_call r x) rxs @ [?cy, Pop, ?cz]))
           = map (\<lambda>(r, x). PushOk x) rxs @ [PushFull y, PopOk (?xs ! 0), PushOk z]"
    by (simp add: run_append r1)
  moreover have "?xs ! 0 = snd (hd rxs)" using ne by (simp add: hd_conv_nth)
  moreover have "Size \<noteq> 0" using N by auto
  then have "unat (Size - 1) = unat Size - 1" by (rule unat_minus_one)
  ultimately show ?thesis using assms(2) by (simp add: capacity_def)
qed

theorem capacity_boundary_witness:
  "static_asserts 4 \<and> length [(False, 1), (True, 2), (False, 3::nat)] = unat (4::size_t) - 1
   \<and> snd (run 4 (\<lambda>_. 0) (SPSCRing_ctor 4 (0::nat))
          [Emplace 1, EmplaceMove 2, Emplace 3, EmplaceMove 4, Pop, EmplaceMove 5])
      = [PushOk 1, PushOk 2, PushOk 3, PushFull 4, PopOk 1, PushOk 5]
   \<and> unat (capacity 4 (SPSCRing_ctor 4 (0::nat))) = 3"
proof -
  have sa: "static_asserts 4" by code_simp
  have l: "length [(False, 1), (True, 2), (False, 3::nat)] = unat (4::size_t) - 1" by simp
  from capacity_boundary [OF sa l, of "\<lambda>_. 0" 0 True 4 True 5] sa l show ?thesis by simp
qed

section \<open>Instrumentation counters\<close>

lemma do_call_counters:
  assumes "do_call Size mv q c = (q', e)"
  shows "push_count q' = push_count q + of_nat (length (accepted [e]))"
    and "pop_count q' = pop_count q + of_nat (length (delivered [e]))"
    and "failed_push_count q' = failed_push_count q + of_nat (length (rejected [e]))"
    and "length (accepted [e]) + length (rejected [e]) = push_calls [c]"
  using assms
  by (cases c; auto simp: do_call_def try_emplace_def try_emplace_move_def try_pop_def
      Let_def push_calls_def split: if_splits)+

lemma run_counters:
  "run Size mv q cs = (q', es) \<Longrightarrow>
     push_count q' = push_count q + of_nat (length (accepted es))
     \<and> pop_count q' = pop_count q + of_nat (length (delivered es))
     \<and> failed_push_count q' = failed_push_count q + of_nat (length (rejected es))
     \<and> length (accepted es) + length (rejected es) = push_calls cs"
proof (induction cs arbitrary: q es)
  case Nil
  then show ?case by (simp add: push_calls_def)
next
  case (Cons c cs)
  from Cons.prems obtain q1 e es' where
    call: "do_call Size mv q c = (q1, e)" and rest: "run Size mv q1 cs = (q', es')"
    and es: "es = e # es'"
    by (rule run_ConsE)
  note c1 = do_call_counters [OF call]
  note c2 = Cons.IH [OF rest]
  have a: "length (accepted es) = length (accepted [e]) + length (accepted es')"
    unfolding es by (subst accepted_Cons) simp
  have d: "length (delivered es) = length (delivered [e]) + length (delivered es')"
    unfolding es by (subst delivered_Cons) simp
  have j: "length (rejected es) = length (rejected [e]) + length (rejected es')"
    unfolding es by (subst rejected_Cons) simp
  have p: "push_calls (c # cs) = push_calls [c] + push_calls cs"
    using push_calls_append [of "[c]" cs] by simp
  have "push_count q' = push_count q + of_nat (length (accepted es))"
    using c1(1) c2 by (simp only: a of_nat_add add.assoc)
  moreover have "pop_count q' = pop_count q + of_nat (length (delivered es))"
    using c1(2) c2 by (simp only: d of_nat_add add.assoc)
  moreover have "failed_push_count q' = failed_push_count q + of_nat (length (rejected es))"
    using c1(3) c2 by (simp only: j of_nat_add add.assoc)
  moreover have "length (accepted es) + length (rejected es) = push_calls (c # cs)"
    using c1(4) c2 by (simp add: a j p)
  ultimately show ?case by blast
qed

lemma run_ctor_counters:
  assumes "run Size mv (SPSCRing_ctor Size T0) cs = (q, es)"
  shows "total_pushes q = of_nat (length (accepted es))"
    and "total_pops q = of_nat (length (delivered es))"
    and "failed_pushes q = of_nat (length (rejected es))"
    and "length (accepted es) + length (rejected es) = push_calls cs"
  using run_counters [OF assms]
  by (simp_all add: SPSCRing_ctor_def total_pushes_def total_pops_def failed_pushes_def)

lemma window_diff_mod:
  fixes a b n :: nat
  assumes "b \<le> a" "a - b < n"
  shows "(int (a mod n) - int (b mod n)) mod int n = int (a - b)"
proof -
  have "(int (a mod n) - int (b mod n)) mod int n = (int a mod int n - int b mod int n) mod int n"
    by (simp only: zmod_int)
  also have "\<dots> = (int a - int b) mod int n" by (rule mod_diff_eq)
  also have "int a - int b = int (a - b)" using assms(1) by simp
  also have "int (a - b) mod int n = int (a - b)" using assms(2) by simp
  finally show ?thesis .
qed

lemma ring_inv_size:
  assumes sa: "static_asserts Size" and inv: "ring_inv Size q acc C"
  shows "unat (size_ring Size q) = length acc - C"
proof -
  from inv have h: "unat (head q) = length acc mod unat Size"
    and t: "unat (tail q) = C mod unat Size" and le: "C \<le> length acc"
    and win: "length acc - C < unat Size"
    by (simp_all add: ring_inv_def)
  have "uint (size_ring Size q) = (uint (head q) - uint (tail q)) mod uint Size"
    by (rule uint_size_ring [OF sa])
  also have "\<dots> = (int (length acc mod unat Size) - int (C mod unat Size)) mod int (unat Size)"
    by (simp only: uint_nat h t)
  also have "\<dots> = int (length acc - C)" by (rule window_diff_mod [OF le win])
  finally show ?thesis by (simp only: uint_nat of_nat_eq_iff)
qed

section \<open>Number of values held\<close>

text \<open>
  C10. In every state reached from a freshly constructed ring by a sequence of calls,
  \<open>size()\<close> is \<open>(head - tail) mod Size\<close>; it is the number of values accepted and not yet
  delivered; it is \<open>total_pushes() - total_pops()\<close>, the difference of the two \<open>uint64_t\<close>
  counters as C++ computes it; and it is at most \<open>capacity()\<close> (and, being unsigned, at least 0).
\<close>

theorem size_is_number_held:
  assumes "static_asserts Size"
    and "run Size moved_from (SPSCRing_ctor Size T0) cs = (q, es)"
  shows "uint (size_ring Size q) = (uint (head q) - uint (tail q)) mod uint Size
       \<and> unat (size_ring Size q) = length (accepted es) - length (delivered es)
       \<and> size_ring Size q = total_pushes q - total_pops q
       \<and> 0 \<le> size_ring Size q \<and> size_ring Size q \<le> capacity Size q"
proof -
  note sa = assms(1)
  note inv = run_ctor_inv(1) [OF assms]
  note cnt = run_ctor_counters [OF assms(2)]
  let ?A = "length (accepted es)" and ?D = "length (delivered es)"
  have le: "?D \<le> ?A" and win: "?A - ?D < unat Size"
    using inv by (simp_all add: ring_inv_def)
  have held: "unat (size_ring Size q) = ?A - ?D" by (rule ring_inv_size [OF sa inv])
  have "total_pushes q - total_pops q = of_nat ?A - of_nat ?D"
    by (simp only: cnt(1,2))
  also have "\<dots> = of_nat (?A - ?D)" using le by (simp only: of_nat_diff)
  also have "\<dots> = size_ring Size q" by (simp only: flip: held) simp
  finally have diff: "size_ring Size q = total_pushes q - total_pops q" by (rule sym)
  have "Size \<noteq> 0" using Size_pos [OF sa] by auto
  then have "unat (capacity Size q) = unat Size - 1"
    unfolding capacity_def by (rule unat_minus_one)
  with held win have "unat (size_ring Size q) \<le> unat (capacity Size q)" by simp
  then have cap: "size_ring Size q \<le> capacity Size q" by (simp only: word_le_nat_alt)
  show ?thesis using uint_size_ring [OF sa, of q] held diff cap by simp
qed

theorem size_is_number_held_witness:
  "static_asserts 4
   \<and> run 4 (\<lambda>_. 0) (SPSCRing_ctor 4 (0::nat)) [Emplace 1, EmplaceMove 2, Pop, Emplace 3]
       = (\<lparr>head = 3, tail = 1, buffer = [0, 2, 3, 0],
           push_count = 3, pop_count = 1, failed_push_count = 0\<rparr>,
          [PushOk 1, PushOk 2, PopOk 1, PushOk 3])
   \<and> size_ring 4 \<lparr>head = 3, tail = 1, buffer = [0, 2, 3, 0::nat],
           push_count = 3, pop_count = 1, failed_push_count = 0\<rparr> = 2
   \<and> unat (size_ring 4 \<lparr>head = 3, tail = 1, buffer = [0, 2, 3, 0::nat],
           push_count = 3, pop_count = 1, failed_push_count = 0\<rparr>)
       = length (accepted [PushOk 1, PushOk 2, PopOk 1, PushOk (3::nat)])
         - length (delivered [PushOk 1, PushOk 2, PopOk 1, PushOk (3::nat)])"
proof -
  let ?q = "\<lparr>head = 3, tail = 1, buffer = [0, 2, 3, 0::nat],
           push_count = 3, pop_count = 1, failed_push_count = 0\<rparr>"
  let ?es = "[PushOk 1, PushOk 2, PopOk 1, PushOk (3::nat)]"
  have sa: "static_asserts 4" by code_simp
  have r: "run 4 (\<lambda>_. 0) (SPSCRing_ctor 4 (0::nat)) [Emplace 1, EmplaceMove 2, Pop, Emplace 3]
       = (?q, ?es)"
    by code_simp
  have s: "size_ring 4 ?q = 2" by code_simp
  from size_is_number_held [OF sa r]
  have h: "unat (size_ring 4 ?q) = length (accepted ?es) - length (delivered ?es)"
    by (rule conjunct2 [THEN conjunct1])
  show ?thesis by (intro conjI sa r s h)
qed

section \<open>Counters over long sequences\<close>

lemma unat_of_nat64:
  assumes "n < 2 ^ 64"
  shows "unat (of_nat n :: 64 word) = n"
proof -
  have "unat (of_nat n :: 64 word) = n mod 2 ^ LENGTH(64)" by (rule unat_of_nat)
  also have "\<dots> = n" using assms by simp
  finally show ?thesis .
qed

lemma push_calls_replicate: "push_calls (replicate n (Emplace x)) = n"
  by (simp add: push_calls_def)

lemma run_pushes_on_full:
  "next_index Size (head q) = tail q \<Longrightarrow>
   run Size mv q (replicate n (Emplace x))
     = (q\<lparr>failed_push_count := failed_push_count q + of_nat n\<rparr>, replicate n (PushFull x))"
proof (induction n arbitrary: q)
  case 0
  then show ?case by simp
next
  case (Suc n)
  let ?q1 = "q\<lparr>failed_push_count := failed_push_count q + 1\<rparr>"
  have call: "do_call Size mv q (Emplace x) = (?q1, PushFull x)"
    using Suc.prems by (simp add: do_call_def try_emplace_def Let_def)
  have "next_index Size (head ?q1) = tail ?q1" using Suc.prems by simp
  from Suc.IH [OF this]
  have "run Size mv ?q1 (replicate n (Emplace x))
     = (?q1\<lparr>failed_push_count := failed_push_count ?q1 + of_nat n\<rparr>, replicate n (PushFull x))" .
  then show ?case by (simp add: call add.assoc)
qed


lemma run_one_then_pushes:
  "run 2 id (SPSCRing_ctor 2 (0::nat)) (Emplace 0 # replicate n (Emplace 0))
     = (\<lparr>head = 1, tail = 0, buffer = [0, 0], push_count = 1, pop_count = 0,
         failed_push_count = of_nat n\<rparr>,
        PushOk 0 # replicate n (PushFull 0))"
proof -
  let ?q1 = "\<lparr>head = 1, tail = 0, buffer = [0, 0::nat], push_count = 1, pop_count = 0,
         failed_push_count = 0\<rparr>"
  have call: "do_call 2 id (SPSCRing_ctor 2 (0::nat)) (Emplace 0) = (?q1, PushOk 0)"
    by code_simp
  have "next_index 2 (head ?q1) = tail ?q1" by code_simp
  from run_pushes_on_full [OF this, of id n 0] show ?thesis
    by (simp add: call)
qed

section \<open>Counter consistency\<close>

text \<open>
  C6, as far as the code goes. The three counters are \<open>uint64_t\<close> and \<open>fetch_add\<close> wraps, so
  the statement holds for the sequences with fewer than \<open>2 ^ 64\<close> \<open>try_emplace\<close> calls: after
  the calls \<open>cs1\<close> followed by the calls \<open>cs2\<close> on a freshly constructed ring,
  \<open>total_pops() \<le> total_pushes()\<close>, \<open>total_pushes() + failed_pushes()\<close> is the number of
  \<open>try_emplace\<close> calls made, and none of the three counters is below its value after \<open>cs1\<close>.
\<close>

theorem counter_consistency:
  assumes "static_asserts Size"
    and "push_calls (cs1 @ cs2) < 2 ^ 64"
    and "run Size moved_from (SPSCRing_ctor Size T0) cs1 = (q1, es1)"
    and "run Size moved_from q1 cs2 = (q2, es2)"
  shows "total_pops q2 \<le> total_pushes q2
       \<and> unat (total_pushes q2) + unat (failed_pushes q2) = push_calls (cs1 @ cs2)
       \<and> total_pushes q1 \<le> total_pushes q2
       \<and> total_pops q1 \<le> total_pops q2
       \<and> failed_pushes q1 \<le> failed_pushes q2"
proof -
  let ?es = "es1 @ es2"
  have r: "run Size moved_from (SPSCRing_ctor Size T0) (cs1 @ cs2) = (q2, ?es)"
    by (simp add: run_append assms(3,4))
  note c1 = run_ctor_counters [OF assms(3)]
  note c2 = run_ctor_counters [OF r]
  have le: "length (delivered ?es) \<le> length (accepted ?es)"
    using run_ctor_inv(1) [OF assms(1) r] by (simp add: ring_inv_def)
  have A: "length (accepted ?es) < 2 ^ 64" and R: "length (rejected ?es) < 2 ^ 64"
    using c2(4) assms(2) by simp_all
  from le A have D: "length (delivered ?es) < 2 ^ 64" by simp
  have A1: "length (accepted es1) \<le> length (accepted ?es)"
    and D1: "length (delivered es1) \<le> length (delivered ?es)"
    and R1: "length (rejected es1) \<le> length (rejected ?es)"
    by (simp_all add: accepted_append delivered_append rejected_append)
  have u2: "unat (total_pushes q2) = length (accepted ?es)"
    "unat (total_pops q2) = length (delivered ?es)"
    "unat (failed_pushes q2) = length (rejected ?es)"
    by (simp_all only: c2(1-3) unat_of_nat64 [OF A] unat_of_nat64 [OF D] unat_of_nat64 [OF R])
  have u1: "unat (total_pushes q1) = length (accepted es1)"
    "unat (total_pops q1) = length (delivered es1)"
    "unat (failed_pushes q1) = length (rejected es1)"
    using A1 D1 R1 A D R
    by (simp_all only: c1(1-3)) (rule unat_of_nat64, simp)+
  show ?thesis
    using le A1 D1 R1 c2(4) by (simp only: word_le_nat_alt u1 u2 simp_thms)
qed

theorem counter_consistency_witness:
  "static_asserts 2
   \<and> push_calls ([Emplace 1, Emplace 2] @ [Pop, Pop :: nat call]) < 2 ^ 64
   \<and> run 2 (\<lambda>_. 0) (SPSCRing_ctor 2 (0::nat)) [Emplace 1, Emplace 2]
       = (\<lparr>head = 1, tail = 0, buffer = [1, 0],
           push_count = 1, pop_count = 0, failed_push_count = 1\<rparr>,
          [PushOk 1, PushFull 2])
   \<and> run 2 (\<lambda>_. 0) \<lparr>head = 1, tail = 0, buffer = [1, 0::nat],
           push_count = 1, pop_count = 0, failed_push_count = 1\<rparr> [Pop, Pop]
       = (\<lparr>head = 1, tail = 1, buffer = [0, 0],
           push_count = 1, pop_count = 1, failed_push_count = 1\<rparr>,
          [PopOk 1, PopEmpty])
   \<and> total_pops \<lparr>head = 1, tail = 1, buffer = [0, 0::nat],
           push_count = 1, pop_count = 1, failed_push_count = 1\<rparr>
       \<le> total_pushes \<lparr>head = 1, tail = 1, buffer = [0, 0::nat],
           push_count = 1, pop_count = 1, failed_push_count = 1\<rparr>
   \<and> unat (total_pushes \<lparr>head = 1, tail = 1, buffer = [0, 0::nat],
           push_count = 1, pop_count = 1, failed_push_count = 1\<rparr>)
       + unat (failed_pushes \<lparr>head = 1, tail = 1, buffer = [0, 0::nat],
           push_count = 1, pop_count = 1, failed_push_count = 1\<rparr>)
       = push_calls ([Emplace 1, Emplace 2] @ [Pop, Pop :: nat call])"
proof -
  let ?q1 = "\<lparr>head = 1, tail = 0, buffer = [1, 0::nat],
           push_count = 1, pop_count = 0, failed_push_count = 1\<rparr>"
  let ?q2 = "\<lparr>head = 1, tail = 1, buffer = [0, 0::nat],
           push_count = 1, pop_count = 1, failed_push_count = 1\<rparr>"
  have sa: "static_asserts 2" by code_simp
  have p: "push_calls ([Emplace 1, Emplace 2] @ [Pop, Pop :: nat call]) < 2 ^ 64"
    by (simp add: push_calls_def)
  have r1: "run 2 (\<lambda>_. 0) (SPSCRing_ctor 2 (0::nat)) [Emplace 1, Emplace 2]
       = (?q1, [PushOk 1, PushFull 2])"
    by code_simp
  have r2: "run 2 (\<lambda>_. 0) ?q1 [Pop, Pop] = (?q2, [PopOk 1, PopEmpty])"
    by code_simp
  note t = counter_consistency [OF sa p r1 r2]
  show ?thesis
    by (intro conjI sa p r1 r2 t [THEN conjunct1] t [THEN conjunct2, THEN conjunct1])
qed

text \<open>
  C6 as stated fails beyond that bound. On a ring of \<open>Size = 2\<close> the first \<open>try_emplace\<close>
  succeeds and fills the ring; each of the \<open>2 ^ 64\<close> calls that follow fails and adds one to
  \<open>failed_push_count_\<close>, which wraps to 0 at the last of them. After these \<open>2 ^ 64 + 1\<close> calls
  \<open>total_pushes() + failed_pushes()\<close> is 1, and \<open>failed_pushes()\<close> is below its value one call
  earlier.
\<close>

theorem counter_consistency_counterexample:
  "unat (total_pushes (fst (run 2 id (SPSCRing_ctor 2 (0::nat))
            (Emplace 0 # replicate (2 ^ 64) (Emplace 0)))))
     + unat (failed_pushes (fst (run 2 id (SPSCRing_ctor 2 (0::nat))
            (Emplace 0 # replicate (2 ^ 64) (Emplace 0)))))
     \<noteq> push_calls (Emplace 0 # replicate (2 ^ 64) (Emplace (0::nat)))
   \<and> failed_pushes (fst (run 2 id (SPSCRing_ctor 2 (0::nat))
            (Emplace 0 # replicate (2 ^ 64) (Emplace 0))))
     < failed_pushes (fst (run 2 id (SPSCRing_ctor 2 (0::nat))
            (Emplace 0 # replicate (2 ^ 64 - 1) (Emplace 0))))"
proof -
  have z: "(of_nat (2 ^ 64) :: 64 word) = 0"
    using of_nat_2p [where ?'a = 64] by simp
  have "unat (of_nat (2 ^ 64 - 1) :: 64 word) = 2 ^ 64 - 1"
    by (rule unat_of_nat64) simp
  then have "unat (of_nat (2 ^ 64 - 1) :: 64 word) \<noteq> 0" by simp
  then have nz: "(0 :: 64 word) < of_nat (2 ^ 64 - 1)"
    by (simp only: word_less_nat_alt unsigned_0)
  have t: "total_pushes (fst (run 2 id (SPSCRing_ctor 2 (0::nat))
            (Emplace 0 # replicate n (Emplace 0)))) = 1" for n
    by (simp only: run_one_then_pushes fst_conv total_pushes_def SPSCRing.select_convs)
  have f: "failed_pushes (fst (run 2 id (SPSCRing_ctor 2 (0::nat))
            (Emplace 0 # replicate n (Emplace 0)))) = of_nat n" for n
    by (simp only: run_one_then_pushes fst_conv failed_pushes_def SPSCRing.select_convs)
  have c: "push_calls (Emplace 0 # replicate n (Emplace (0::nat))) = Suc n" for n
    using push_calls_append [of "[Emplace 0]" "replicate n (Emplace (0::nat))"]
    by (simp add: push_calls_replicate) (simp add: push_calls_def)
  have "unat (1 :: 64 word) + unat (0 :: 64 word) \<noteq> Suc (2 ^ 64)" by simp
  then show ?thesis
    by (simp only: t f c z nz simp_thms)
qed

end
